theory Spec2Isabelle
  imports Main
begin

section \<open>Values, continuations and the Promise object\<close>

text \<open>
  JavaScript values as far as the promise engine inspects them: it tests a value for
  truthiness (\<open>result || self.outcome\<close>), for \<open>undefined\<close>, for \<open>typeof "object"\<close>
  and for being an instance of \<open>Error\<close> or of \<open>Promise\<close>. Numbers are the integers.
  A Promise value is the address of the object in the heap. \<open>TypeErr\<close> is the
  \<open>TypeError\<close> the runtime itself raises (its message is the runtime's own).
\<close>

datatype val =
    Undefined
  | Null
  | Bool bool
  | Num int
  | Str string
  | Obj "(string \<times> val) list"
  | Err string
  | TypeErr
  | Prom nat

fun truthy :: "val \<Rightarrow> bool" where
  "truthy Undefined = False"
| "truthy Null = False"
| "truthy (Bool b) = b"
| "truthy (Num n) = (n \<noteq> 0)"
| "truthy (Str s) = (s \<noteq> [])"
| "truthy (Obj fs) = True"
| "truthy (Err m) = True"
| "truthy TypeErr = True"
| "truthy (Prom p) = True"

text \<open>The operator \<open>a || b\<close>.\<close>

definition js_or :: "val \<Rightarrow> val \<Rightarrow> val" where
  "js_or a b = (if truthy a then a else b)"

text \<open>\<open>v instanceof Error\<close>, \<open>v instanceof Promise\<close> and \<open>typeof v === "object"\<close>.\<close>

fun instanceof_Error :: "val \<Rightarrow> bool" where
  "instanceof_Error (Err m) = True"
| "instanceof_Error TypeErr = True"
| "instanceof_Error v = False"

fun instanceof_Promise :: "val \<Rightarrow> bool" where
  "instanceof_Promise (Prom p) = True"
| "instanceof_Promise v = False"

fun typeof_object :: "val \<Rightarrow> bool" where
  "typeof_object Null = True"
| "typeof_object (Obj fs) = True"
| "typeof_object (Err m) = True"
| "typeof_object TypeErr = True"
| "typeof_object (Prom p) = True"
| "typeof_object v = False"

text \<open>
  What the engine takes from its surroundings. \<open>freeze\<close> is the cached
  \<open>promise.freeze\<close> (whether \<open>Object.freeze\<close> exists); \<open>strict\<close> says whether the
  code runs in strict mode, where a write to a frozen object raises a \<open>TypeError\<close>
  instead of being ignored. \<open>json_encode\<close> is \<open>json.encode\<close>,
  \<open>invalidArguments\<close> is \<open>label.error.invalidArguments\<close>, \<open>promiseResolved v\<close> is
  \<open>label.error.promiseResolved.replace( "{{outcome}}", v )\<close>, and \<open>toString\<close> is the
  runtime's conversion of a number or boolean to a string.
\<close>

record env =
  freeze :: bool
  strict :: bool
  json_encode :: "val \<Rightarrow> string"
  invalidArguments :: string
  promiseResolved :: "val \<Rightarrow> string"
  toString :: "val \<Rightarrow> string"

text \<open>The call \<open>Error( v )\<close>: an Error whose message is \<open>v\<close> as a string.\<close>

definition Error_of :: "env \<Rightarrow> val \<Rightarrow> val" where
  "Error_of env v = (case v of Str m \<Rightarrow> Err m | _ \<Rightarrow> Err (toString env v))"

text \<open>
  A function supplied by the caller either returns a value or throws one; what it
  returns may be a Promise that exists already, and it does not itself change the
  heap or the queue. \<open>Pure i f\<close>
  is a caller's function \<open>f\<close> with the name \<open>i\<close>, under which each of its invocations
  is recorded; \<open>FwdResolve p\<close> and \<open>FwdReject p\<close> are the two closures
  \<open>function ( arg ) { self.resolve( arg ); }\<close> and
  \<open>function ( arg ) { self.reject( arg ); }\<close> that \<open>then\<close> builds with \<open>self = p\<close>.
\<close>

datatype hres = Returns val | Throws val

datatype handler =
    Pure nat "val \<Rightarrow> hres"
  | FwdResolve nat
  | FwdReject nat

text \<open>An argument of \<open>then\<close>: a function, or anything else.\<close>

datatype arg = Callable handler | NotCallable val

fun is_function :: "arg \<Rightarrow> bool" where
  "is_function (Callable h) = True"
| "is_function (NotCallable v) = False"

text \<open>
  A continuation stored in \<open>fulfill\<close> or \<open>error\<close>. \<open>Wrapper self deferred success
  failure yay\<close> is the closure \<open>function () { return fn(yay); }\<close> that \<open>then\<close>
  registers, with the variables it captures; \<open>Raw h\<close> is any other function handed
  to \<open>vouch\<close>.
\<close>

datatype cont =
    Wrapper nat nat arg arg bool
  | Raw handler

record promise =
  error :: "cont list"
  fulfill :: "cont list"
  parentNode :: "nat option"
  outcome :: val
  state :: string
  frozen :: bool

definition state_broken :: string where "state_broken = ''rejected''"
definition state_pending :: string where "state_pending = ''pending''"
definition state_resolved :: string where "state_resolved = ''fulfilled''"

text \<open>The constructor \<open>Promise ()\<close>.\<close>

definition Promise :: promise where
  "Promise = \<lparr> error = [], fulfill = [], parentNode = None, outcome = Null,
               state = state_pending, frozen = False \<rparr>"

text \<open>
  The state of the program: the heap of Promise objects with the next free address,
  the queue of jobs handed to \<open>utility.defer\<close> (each job is the call
  \<open>promise.resolve.call( self, state, arg )\<close>, kept as \<open>(self, state, arg)\<close>), and the
  record of the invocations of the caller's functions, oldest first.
\<close>

record st =
  heap :: "nat \<Rightarrow> promise"
  nxt :: nat
  queue :: "(nat \<times> string \<times> val) list"
  calls :: "(nat \<times> val) list"

definition factory :: "st \<Rightarrow> nat \<times> st" where
  "factory s = (nxt s, s\<lparr> heap := (heap s)(nxt s := Promise), nxt := Suc (nxt s) \<rparr>)"

text \<open>
  Modelled from the spec: \<open>utility.defer\<close>, which is not among the sources. It runs
  the callback on a later turn, never within the calling frame, in the order of the
  calls: the job goes to the end of the queue.
\<close>

definition utility_defer :: "nat \<times> string \<times> val \<Rightarrow> st \<Rightarrow> st" where
  "utility_defer j s = s\<lparr> queue := queue s @ [j] \<rparr>"

text \<open>
  An assignment to a property of a Promise object. After \<open>Object.freeze\<close> the object
  keeps its properties: the write is ignored, or raises in strict mode.
\<close>

definition assign :: "env \<Rightarrow> nat \<Rightarrow> (promise \<Rightarrow> promise) \<Rightarrow> st \<Rightarrow> val option \<times> st" where
  "assign env p f s =
     (if frozen (heap s p) then (if strict env then (Some TypeErr, s) else (None, s))
      else (None, s\<lparr> heap := (heap s)(p := f (heap s p)) \<rparr>))"

section \<open>The methods reject, resolve and resolved\<close>

definition methods_reject :: "nat \<Rightarrow> val \<Rightarrow> st \<Rightarrow> nat \<times> st" where
  "methods_reject this a s = (this, utility_defer (this, state_broken, a) s)"

definition methods_resolve :: "nat \<Rightarrow> val \<Rightarrow> st \<Rightarrow> nat \<times> st" where
  "methods_resolve this a s = (this, utility_defer (this, state_resolved, a) s)"

definition methods_resolved :: "nat \<Rightarrow> st \<Rightarrow> bool" where
  "methods_resolved this s =
     (state (heap s this) = state_broken \<or> state (heap s this) = state_resolved)"

section \<open>then and vouch\<close>

text \<open>Calling a function of the caller, and calling an argument of \<open>then\<close>.\<close>

fun call_handler :: "handler \<Rightarrow> val \<Rightarrow> st \<Rightarrow> hres \<times> st" where
  "call_handler (Pure i f) v s = (f v, s\<lparr> calls := calls s @ [(i, v)] \<rparr>)"
| "call_handler (FwdResolve p) v s = (Returns Undefined, snd (methods_resolve p v s))"
| "call_handler (FwdReject p) v s = (Returns Undefined, snd (methods_reject p v s))"

fun call_arg :: "arg \<Rightarrow> val \<Rightarrow> st \<Rightarrow> hres \<times> st" where
  "call_arg (Callable h) v s = call_handler h v s"
| "call_arg (NotCallable x) v s = (Throws TypeErr, s)"

text \<open>
  The \<open>catch\<close> block of \<open>fn\<close>: a thrown value that is neither \<open>undefined\<close> nor an
  Error becomes an Error, an object through \<open>json.encode\<close> first.
\<close>

definition catch_normalize :: "env \<Rightarrow> val \<Rightarrow> val" where
  "catch_normalize env e =
     (if e \<noteq> Undefined \<and> \<not> instanceof_Error e
      then Error_of env (if typeof_object e then Str (json_encode env e) else e)
      else e)"

text \<open>
  Modelled from the spec: \<open>string.isEmpty\<close>, which is not among the sources (the
  branch selector is empty).
\<close>

definition isEmpty :: "string \<Rightarrow> bool" where
  "isEmpty x = (x = [])"

text \<open>The measure of the recursion of \<open>fn\<close>, \<open>then\<close>, \<open>vouch\<close> and the stored closures.\<close>

fun arg_rank :: "arg \<Rightarrow> nat" where
  "arg_rank (Callable (Pure i f)) = 1"
| "arg_rank a = 0"

fun cont_rank :: "cont \<Rightarrow> nat" where
  "cont_rank (Wrapper self deferred success failure yay) =
     4 * arg_rank (if yay then success else failure)"
| "cont_rank (Raw h) = 0"

lemma catch_normalize_not_Promise: "\<not> instanceof_Promise (catch_normalize env e)"
  by (cases e) (auto simp: catch_normalize_def Error_of_def split: val.splits)

lemma call_arg_Promise_rank:
  assumes "(r, s1) = call_arg a v s"
    and "(res, err) = (case r of Returns x \<Rightarrow> (x, False)
                                | Throws e \<Rightarrow> (catch_normalize env e, True))"
    and "instanceof_Promise res"
  shows "arg_rank a = 1"
proof (cases a)
  case (Callable h)
  show ?thesis
  proof (cases h)
    case (Pure i f)
    with Callable show ?thesis by simp
  next
    case (FwdResolve p)
    with Callable assms show ?thesis by auto
  next
    case (FwdReject p)
    with Callable assms show ?thesis by auto
  qed
next
  case (NotCallable x)
  with assms show ?thesis by (auto simp: catch_normalize_not_Promise)
qed

text \<open>
  \<open>fn\<close> is the function of that name inside \<open>then\<close>, with the variables of the
  enclosing call as parameters; \<open>call_cont\<close> invokes a stored continuation. A thrown
  value is \<open>Inl\<close>, with the state as it was left. In \<open>fn\<close>, \<open>err\<close> is the variable
  \<open>error\<close>: its initial value \<open>yay ? false : true\<close> is never read, since the \<open>try\<close>
  block sets it to \<open>false\<close> when the handler returns and the \<open>catch\<close> block to
  \<open>true\<close> when it throws. The \<open>throw\<close> in the \<open>finally\<close> block leaves \<open>fn\<close>; every
  other path reaches \<open>return result\<close>. The four functions call each other; the
  recursion ends because only a caller's function can return a Promise, and the
  adoption branch hands \<open>then\<close> the two forwarding closures.
\<close>

function fn :: "env \<Rightarrow> nat \<Rightarrow> nat \<Rightarrow> arg \<Rightarrow> arg \<Rightarrow> bool \<Rightarrow> st \<Rightarrow> (val + val) \<times> st"
  and methods_then :: "env \<Rightarrow> nat \<Rightarrow> arg \<Rightarrow> arg \<Rightarrow> st \<Rightarrow> (val + nat) \<times> st"
  and vouch :: "env \<Rightarrow> nat \<Rightarrow> string \<Rightarrow> cont \<Rightarrow> st \<Rightarrow> (val + nat) \<times> st"
  and call_cont :: "env \<Rightarrow> cont \<Rightarrow> val \<Rightarrow> st \<Rightarrow> (val + val) \<times> st"
where
  "fn env self deferred success failure yay s =
     (let handler = (if yay then success else failure) in
      case call_arg handler (outcome (heap s self)) s of (r, s1) \<Rightarrow>
     (case (case r of Returns v \<Rightarrow> (v, False)
                    | Throws e \<Rightarrow> (catch_normalize env e, True)) of (result, err) \<Rightarrow>
      if \<not> instanceof_Promise result then
        if err \<and> result = Undefined then (Inl (Err (invalidArguments env)), s1)
        else (Inr result,
              snd ((if \<not> err then methods_resolve else methods_reject) deferred
                     (js_or result (outcome (heap s1 self))) s1))
      else
       (case assign env self (\<lambda>p. p\<lparr> state := state_pending \<rparr>) s1 of
          (Some x, s2) \<Rightarrow> (Inl x, s2)
        | (None, s2) \<Rightarrow>
       (case assign env self (\<lambda>p. p\<lparr> outcome := Null \<rparr>) s2 of
          (Some x, s3) \<Rightarrow> (Inl x, s3)
        | (None, s3) \<Rightarrow>
       (case assign env (case result of Prom q \<Rightarrow> q)
               (\<lambda>p. p\<lparr> parentNode := Some self \<rparr>) s3 of
          (Some x, s4) \<Rightarrow> (Inl x, s4)
        | (None, s4) \<Rightarrow>
       (case methods_then env (case result of Prom q \<Rightarrow> q)
               (Callable (FwdResolve self)) (Callable (FwdReject self)) s4 of
          (Inl x, s5) \<Rightarrow> (Inl x, s5)
        | (Inr d, s5) \<Rightarrow> (Inr result, s5)))))))"
| "methods_then env self success failure s =
     (case factory s of (deferred, s0) \<Rightarrow>
     (case (if is_function success
            then vouch env self state_resolved
                   (Wrapper self deferred success failure True) s0
            else (Inr self, s0)) of
        (Inl x, s1) \<Rightarrow> (Inl x, s1)
      | (Inr t, s1) \<Rightarrow>
     (case (if is_function failure
            then vouch env self state_broken
                   (Wrapper self deferred success failure False) s1
            else (Inr self, s1)) of
        (Inl x, s2) \<Rightarrow> (Inl x, s2)
      | (Inr t, s2) \<Rightarrow>
     (case assign env deferred (\<lambda>p. p\<lparr> parentNode := Some self \<rparr>) s2 of
        (Some x, s3) \<Rightarrow> (Inl x, s3)
      | (None, s3) \<Rightarrow> (Inr deferred, s3)))))"
| "vouch env this lbl c s =
     (if isEmpty lbl then (Inl (Err (invalidArguments env)), s)
      else if state (heap s this) = state_pending then
        (Inr this,
         s\<lparr> heap := (heap s)(this :=
               (if lbl = state_resolved
                then (heap s this)\<lparr> fulfill := fulfill (heap s this) @ [c] \<rparr>
                else (heap s this)\<lparr> error := error (heap s this) @ [c] \<rparr>)) \<rparr>)
      else if state (heap s this) = lbl then
        (case call_cont env c (outcome (heap s this)) s of
           (Inl x, s1) \<Rightarrow> (Inl x, s1)
         | (Inr r, s1) \<Rightarrow> (Inr this, s1))
      else (Inr this, s))"
| "call_cont env (Wrapper self deferred success failure yay) v s =
     fn env self deferred success failure yay s"
| "call_cont env (Raw h) v s =
     (case call_handler h v s of
        (Returns r, s1) \<Rightarrow> (Inr r, s1)
      | (Throws e, s1) \<Rightarrow> (Inl e, s1))"
  by pat_completeness auto

termination
proof (relation "measure (\<lambda>x. case x of
      Inl (Inl (env, self, deferred, success, failure, yay, s)) \<Rightarrow>
        4 * arg_rank (if yay then success else failure)
    | Inl (Inr (env, self, success, failure, s)) \<Rightarrow>
        4 * max (arg_rank success) (arg_rank failure) + 3
    | Inr (Inl (env, this, lbl, c, s)) \<Rightarrow> cont_rank c + 2
    | Inr (Inr (env, c, v, s)) \<Rightarrow> cont_rank c + 1)", goal_cases)
  case 1
  show ?case by simp
next
  case (2 env self deferred success failure yay s handler r s1 result err)
  then have "arg_rank (if yay then success else failure) = 1"
    using call_arg_Promise_rank by blast
  then show ?case by simp
qed simp_all

declare fn.simps [simp del] methods_then.simps [simp del] vouch.simps [simp del]

section \<open>Settlement: promise.resolve\<close>

text \<open>The local variables of \<open>promise.resolve\<close> that the drain changes.\<close>

record vars =
  v_result :: val
  v_purge :: "nat list"
  v_pending :: bool
  v_error :: bool
  v_reason :: val
  v_state :: string

text \<open>The property \<open>this[handler]\<close>, read and changed in place.\<close>

definition handlers_of :: "string \<Rightarrow> promise \<Rightarrow> cont list" where
  "handlers_of handler p = (if handler = ''error'' then error p else fulfill p)"

definition handlers_update :: "string \<Rightarrow> (cont list \<Rightarrow> cont list) \<Rightarrow> promise \<Rightarrow> promise" where
  "handlers_update handler f p =
     (if handler = ''error'' then p\<lparr> error := f (error p) \<rparr>
      else p\<lparr> fulfill := f (fulfill p) \<rparr>)"

text \<open>
  Modelled from the spec: \<open>array.each\<close> and \<open>array.remove\<close>, which are not among
  the sources. \<open>array.each\<close> hands each element and its index to the callback, in
  order, and stops when the callback returns \<open>false\<close> (\<open>Inr False\<close> here; \<open>Inl\<close> is
  a thrown value). It walks the elements the array has when the call starts: while
  the drain runs, \<open>this[handler]\<close> can only grow, and only in an invocation after
  which the walk stops. \<open>array.remove\<close> takes the element at one index out of the
  array.
\<close>

fun array_each ::
  "('a \<Rightarrow> nat \<Rightarrow> 'v \<Rightarrow> 's \<Rightarrow> (val + bool) \<times> 'v \<times> 's) \<Rightarrow> 'a list \<Rightarrow> nat \<Rightarrow> 'v \<Rightarrow> 's
     \<Rightarrow> val option \<times> 'v \<times> 's" where
  "array_each f [] idx l s = (None, l, s)"
| "array_each f (x # xs) idx l s =
     (case f x idx l s of
        (Inl e, l1, s1) \<Rightarrow> (Some e, l1, s1)
      | (Inr False, l1, s1) \<Rightarrow> (None, l1, s1)
      | (Inr True, l1, s1) \<Rightarrow> array_each f xs (Suc idx) l1 s1)"

definition array_remove :: "nat \<Rightarrow> 'a list \<Rightarrow> 'a list" where
  "array_remove i xs = take i xs @ drop (Suc i) xs"

text \<open>The callback that \<open>promise.resolve\<close> hands to \<open>array.each\<close>.\<close>

definition drain_callback ::
  "env \<Rightarrow> nat \<Rightarrow> val \<Rightarrow> cont \<Rightarrow> nat \<Rightarrow> vars \<Rightarrow> st \<Rightarrow> (val + bool) \<times> vars \<times> st" where
  "drain_callback env self v c idx l s =
     (case call_cont env c v s of
        (Inl x, s1) \<Rightarrow> (Inl x, l, s1)
      | (Inr r, s1) \<Rightarrow>
         (let l1 = l\<lparr> v_result := r, v_purge := v_purge l @ [idx] \<rparr> in
          if instanceof_Promise r then
           (case assign env self (\<lambda>p. p\<lparr> outcome := Null \<rparr>) s1 of
              (Some x, s2) \<Rightarrow> (Inl x, l1\<lparr> v_pending := True \<rparr>, s2)
            | (None, s2) \<Rightarrow>
           (case assign env self (\<lambda>p. p\<lparr> state := state_pending \<rparr>) s2 of
              (Some x, s3) \<Rightarrow> (Inl x, l1\<lparr> v_pending := True \<rparr>, s3)
            | (None, s3) \<Rightarrow> (Inr False, l1\<lparr> v_pending := True \<rparr>, s3)))
          else if instanceof_Error r then
            (Inr True, l1\<lparr> v_error := True, v_reason := r, v_state := state_broken \<rparr>, s1)
          else (Inr True, l1, s1)))"

text \<open>
  The drain: the call of \<open>array.each\<close> on \<open>this[handler]\<close>, from the initial values
  of the local variables.
\<close>

definition drain ::
  "env \<Rightarrow> nat \<Rightarrow> string \<Rightarrow> string \<Rightarrow> val \<Rightarrow> st \<Rightarrow> val option \<times> vars \<times> st" where
  "drain env this handler lbl v s =
     array_each (drain_callback env this v) (handlers_of handler (heap s this)) 0
       \<lparr> v_result = Undefined, v_purge = [], v_pending = False, v_error = False,
         v_reason = Undefined, v_state = lbl \<rparr> s"

definition promise_resolve :: "env \<Rightarrow> nat \<Rightarrow> string \<Rightarrow> val \<Rightarrow> st \<Rightarrow> (val + val) \<times> st" where
  "promise_resolve env this lbl v s =
     (let handler = (if lbl = state_broken then ''error'' else ''fulfill'') in
      if state (heap s this) \<noteq> state_pending
      then (Inl (Err (promiseResolved env (outcome (heap s this)))), s)
      else
     (case assign env this (\<lambda>p. p\<lparr> state := lbl \<rparr>) s of
        (Some x, s1) \<Rightarrow> (Inl x, s1)
      | (None, s1) \<Rightarrow>
     (case assign env this (\<lambda>p. p\<lparr> outcome := v \<rparr>) s1 of
        (Some x, s2) \<Rightarrow> (Inl x, s2)
      | (None, s2) \<Rightarrow>
     (case drain env this handler lbl v s2 of
        (Some x, l, s3) \<Rightarrow> (Inl x, s3)
      | (None, l, s3) \<Rightarrow>
        if \<not> v_pending l then
         (case assign env this (\<lambda>p. p\<lparr> error := [] \<rparr>) s3 of
            (Some x, s4) \<Rightarrow> (Inl x, s4)
          | (None, s4) \<Rightarrow>
         (case assign env this (\<lambda>p. p\<lparr> fulfill := [] \<rparr>) s4 of
            (Some x, s5) \<Rightarrow> (Inl x, s5)
          | (None, s5) \<Rightarrow>
            (let l1 = (if \<not> v_error l
                       then l\<lparr> v_result := v_reason l, v_state := state_resolved \<rparr> else l);
                 s6 = (case parentNode (heap s5 this) of
                         None \<Rightarrow> s5
                       | Some pn \<Rightarrow>
                           if state (heap s5 pn) = state_pending
                           then snd ((if v_state l1 = state_resolved
                                      then methods_resolve else methods_reject) pn
                                       (js_or (v_result l1) (outcome (heap s5 this))) s5)
                           else s5);
                 s7 = (if freeze env
                       then s6\<lparr> heap := (heap s6)(this := (heap s6 this)\<lparr> frozen := True \<rparr>) \<rparr>
                       else s6)
             in (Inr (Prom this), s7))))
        else
          (Inr (v_result l),
           s3\<lparr> heap := (heap s3)(this :=
                  handlers_update handler (fold array_remove (rev (v_purge l)))
                    (heap s3 this)) \<rparr>)))))"

section \<open>The deferred jobs\<close>

text \<open>
  A later turn runs the oldest job; a value it throws is not caught by anyone, and is
  returned beside the state. \<open>run_jobs n\<close> runs \<open>n\<close> turns and collects what they threw.
\<close>

definition run_job :: "env \<Rightarrow> st \<Rightarrow> val option \<times> st" where
  "run_job env s =
     (case queue s of
        [] \<Rightarrow> (None, s)
      | (this, lbl, a) # js \<Rightarrow>
         (case promise_resolve env this lbl a (s\<lparr> queue := js \<rparr>) of
            (Inl x, s1) \<Rightarrow> (Some x, s1)
          | (Inr r, s1) \<Rightarrow> (None, s1)))"

fun run_jobs :: "env \<Rightarrow> nat \<Rightarrow> st \<Rightarrow> val list \<times> st" where
  "run_jobs env 0 s = ([], s)"
| "run_jobs env (Suc n) s =
     (case run_job env s of (x, s1) \<Rightarrow>
      case run_jobs env n s1 of (xs, s2) \<Rightarrow>
        ((case x of None \<Rightarrow> xs | Some e \<Rightarrow> e # xs), s2))"

section \<open>Auxiliary notions\<close>

text \<open>
  The state after \<open>q.then\<close> has been handed the two forwarding closures of \<open>p\<close>, as
  the adoption branch of \<open>fn\<close> does.
\<close>

definition forwarded :: "env \<Rightarrow> nat \<Rightarrow> nat \<Rightarrow> st \<Rightarrow> st" where
  "forwarded env q p s =
     snd (methods_then env q (Callable (FwdResolve p)) (Callable (FwdReject p)) s)"

text \<open>
  A continuation as \<open>p.then\<close> stores it on \<open>p\<close>: the closure it registers has
  \<open>self = p\<close>. Any other function is not constrained.
\<close>

fun registered_on :: "nat \<Rightarrow> cont \<Rightarrow> bool" where
  "registered_on p (Wrapper self deferred success failure yay) = (self = p)"
| "registered_on p (Raw h) = True"

text \<open>
  The Promises a stored continuation can reach: the \<open>self\<close> and \<open>deferred\<close> of a
  closure of \<open>then\<close>, and the \<open>self\<close> of a forwarding closure.
\<close>

fun handler_targets :: "handler \<Rightarrow> nat list" where
  "handler_targets (Pure i f) = []"
| "handler_targets (FwdResolve p) = [p]"
| "handler_targets (FwdReject p) = [p]"

fun arg_targets :: "arg \<Rightarrow> nat list" where
  "arg_targets (Callable h) = handler_targets h"
| "arg_targets (NotCallable v) = []"

fun cont_targets :: "cont \<Rightarrow> nat list" where
  "cont_targets (Wrapper self deferred success failure yay) =
     self # deferred # arg_targets success @ arg_targets failure"
| "cont_targets (Raw h) = handler_targets h"

text \<open>
  From \<open>s\<close> to \<open>s'\<close> the queue has only grown, and by no job for the Promise \<open>x\<close>.
\<close>

definition no_job_added :: "nat \<Rightarrow> st \<Rightarrow> st \<Rightarrow> bool" where
  "no_job_added x s s' =
     (take (length (queue s)) (queue s') = queue s \<and>
      list_all (\<lambda>j. fst j \<noteq> x) (drop (length (queue s)) (queue s')))"

text \<open>
  The Promise \<open>p\<close> is allocated, the closures of \<open>then\<close> stored on it are its own, and
  neither its continuations nor its \<open>parentNode\<close> reach an address that is not
  allocated yet.
\<close>

definition well_formed_at :: "st \<Rightarrow> nat \<Rightarrow> bool" where
  "well_formed_at s p =
     (p < nxt s \<and>
      list_all (\<lambda>c. registered_on p c \<and> list_all (\<lambda>a. a < nxt s) (cont_targets c))
        (fulfill (heap s p) @ error (heap s p)) \<and>
      (case parentNode (heap s p) of None \<Rightarrow> True | Some pn \<Rightarrow> pn < nxt s))"

section \<open>An environment and states to run the engine on\<close>

definition env_ex :: env where
  "env_ex = \<lparr> freeze = True, strict = True, json_encode = (\<lambda>v. ''{code:1}''),
     invalidArguments = ''Invalid arguments'',
     promiseResolved = (\<lambda>v. ''The promise has been resolved''),
     toString = (\<lambda>v. ''1'') \<rparr>"

text \<open>Nothing allocated yet, and one Promise already fulfilled with 42.\<close>

definition st_init :: st where
  "st_init = \<lparr> heap = (\<lambda>_. Promise), nxt = 0, queue = [], calls = [] \<rparr>"

definition settled_ex :: st where
  "settled_ex =
     \<lparr> heap = (\<lambda>_. Promise\<lparr> outcome := Num 42, state := state_resolved, frozen := True \<rparr>),
       nxt = 1, queue = [], calls = [] \<rparr>"

text \<open>One Promise already rejected with the string \<open>bad\<close>.\<close>

definition broken_ex :: st where
  "broken_ex =
     \<lparr> heap = (\<lambda>_. Promise\<lparr> outcome := Str ''bad'', state := state_broken, frozen := True \<rparr>),
       nxt = 1, queue = [], calls = [] \<rparr>"

text \<open>One Promise fresh from the factory, at address 0; and two, at 0 and 1.\<close>

definition one_ex :: st where
  "one_ex = snd (factory st_init)"

definition two_ex :: st where
  "two_ex = snd (factory one_ex)"

text \<open>The Promise at 0 with one success continuation, registered by \<open>then\<close>.\<close>

definition registered_ex :: st where
  "registered_ex =
     snd (methods_then env_ex 0 (Callable (Pure 1 Returns)) (NotCallable Undefined) one_ex)"

section \<open>Basic facts\<close>

lemma state_consts_distinct [simp]:
  "state_pending \<noteq> state_broken" "state_pending \<noteq> state_resolved"
  "state_broken \<noteq> state_pending" "state_resolved \<noteq> state_pending"
  "state_broken \<noteq> state_resolved" "state_resolved \<noteq> state_broken"
  "state_broken \<noteq> []" "state_resolved \<noteq> []" "state_pending \<noteq> []"
  by (simp_all add: state_broken_def state_pending_def state_resolved_def)

lemmas engine_simps = methods_then.simps vouch.simps fn.simps promise_resolve_def run_job_def
  assign_def factory_def methods_resolve_def methods_reject_def utility_defer_def isEmpty_def
  Promise_def drain_def drain_callback_def handlers_of_def handlers_update_def js_or_def
  catch_normalize_def Error_of_def Let_def

lemmas example_simps = env_ex_def st_init_def settled_ex_def one_ex_def two_ex_def
  registered_ex_def broken_ex_def

section \<open>The forwarding closures\<close>


lemma fn_forward:
  "fn env q d (Callable (FwdResolve p)) (Callable (FwdReject p)) yay s =
     (Inr Undefined,
      s\<lparr> queue := queue s @
          [(p, if yay then state_resolved else state_broken, outcome (heap s q)),
           (d, state_resolved, outcome (heap s q))] \<rparr>)"
  by (simp add: fn.simps methods_resolve_def methods_reject_def utility_defer_def js_or_def)

lemma vouch_forward:
  "lbl \<noteq> [] \<Longrightarrow>
   vouch env q lbl (Wrapper q d (Callable (FwdResolve p)) (Callable (FwdReject p)) yay) s =
     (Inr q,
      if state (heap s q) = state_pending then
        s\<lparr> heap := (heap s)(q :=
           (if lbl = state_resolved
            then (heap s q)\<lparr> fulfill := fulfill (heap s q) @
                   [Wrapper q d (Callable (FwdResolve p)) (Callable (FwdReject p)) yay] \<rparr>
            else (heap s q)\<lparr> error := error (heap s q) @
                   [Wrapper q d (Callable (FwdResolve p)) (Callable (FwdReject p)) yay] \<rparr>)) \<rparr>
      else if state (heap s q) = lbl then
        s\<lparr> queue := queue s @
          [(p, if yay then state_resolved else state_broken, outcome (heap s q)),
           (d, state_resolved, outcome (heap s q))] \<rparr>
      else s)"
  by (simp add: vouch.simps fn_forward isEmpty_def)

lemma then_forward_eq:
  "methods_then env q (Callable (FwdResolve p)) (Callable (FwdReject p)) s =
     (Inr (nxt s), forwarded env q p s)"
  by (simp add: forwarded_def methods_then.simps vouch_forward factory_def assign_def Promise_def)

lemma forwarded_frame:
  "calls (forwarded env q p s) = calls s"
  "nxt (forwarded env q p s) = Suc (nxt s)"
  "x \<noteq> nxt s \<Longrightarrow> state (heap (forwarded env q p s) x) = state (heap s x)"
  "x \<noteq> nxt s \<Longrightarrow> outcome (heap (forwarded env q p s) x) = outcome (heap s x)"
  "x \<noteq> nxt s \<Longrightarrow> frozen (heap (forwarded env q p s) x) = frozen (heap s x)"
  "x \<noteq> nxt s \<Longrightarrow> parentNode (heap (forwarded env q p s) x) = parentNode (heap s x)"
  by (simp_all add: forwarded_def methods_then.simps vouch_forward factory_def assign_def
      Promise_def)

lemma call_arg_frame:
  assumes "call_arg a v s = (r, s1)"
  shows "heap s1 = heap s" and "nxt s1 = nxt s"
  using assms
  by (cases a; cases "case a of Callable h \<Rightarrow> h";
      auto simp: methods_resolve_def methods_reject_def utility_defer_def)+

lemma call_arg_calls:
  "calls (snd (call_arg (Callable (Pure i f)) v s)) = calls s @ [(i, v)]"
  by simp

lemma assign_frame:
  assumes "assign env p f s = (r, s1)"
  shows "nxt s1 = nxt s" and "calls s1 = calls s" and "queue s1 = queue s"
    and "x \<noteq> p \<Longrightarrow> heap s1 x = heap s x"
    and "heap s1 p = heap s p \<or> heap s1 p = f (heap s p)"
  using assms by (auto simp: assign_def split: if_splits)

lemma fn_calls:
  "calls (snd (fn env self deferred (Callable (Pure i f)) failure True s)) =
     calls s @ [(i, outcome (heap s self))]"
  by (auto simp add: fn.simps then_forward_eq forwarded_frame assign_def methods_resolve_def
      methods_reject_def utility_defer_def split: hres.splits)

section \<open>One continuation at a time\<close>


lemma fn_returns_plain:
  assumes "f (outcome (heap s self)) = Returns x" and "\<not> instanceof_Promise x"
  shows "fn env self d (Callable (Pure i f)) fa True s =
           (Inr x, s\<lparr> calls := calls s @ [(i, outcome (heap s self))],
                      queue := queue s @ [(d, state_resolved, js_or x (outcome (heap s self)))] \<rparr>)"
  using assms by (simp add: fn.simps methods_resolve_def utility_defer_def)

lemma then_on_pending:
  assumes "p < nxt s" and "state (heap s p) = state_pending"
  shows "methods_then env p su fa s =
    (Inr (nxt s),
     s\<lparr> heap := (heap s)
          (p := (heap s p)
             \<lparr> error := error (heap s p) @
                  (if is_function fa then [Wrapper p (nxt s) su fa False] else []),
               fulfill := fulfill (heap s p) @
                  (if is_function su then [Wrapper p (nxt s) su fa True] else []) \<rparr>,
           nxt s := Promise\<lparr> parentNode := Some p \<rparr>),
        nxt := Suc (nxt s) \<rparr>)"
proof -
  obtain e f pn oc st fr where hp: "heap s p = \<lparr> error = e, fulfill = f, parentNode = pn,
      outcome = oc, state = st, frozen = fr \<rparr>"
    by (cases "heap s p") auto
  show ?thesis
    using assms hp
    by (cases s) (auto simp add: methods_then.simps vouch.simps factory_def assign_def isEmpty_def
      Promise_def fun_upd_twist)
qed


lemma settle_single_plain:
  assumes "state (heap s this) = state_pending" and "\<not> frozen (heap s this)"
    and "fulfill (heap s this) = [Wrapper this d (Callable (Pure i f)) fa True]"
    and "f v = Returns x" and "\<not> instanceof_Promise x"
  shows "\<exists>s'. promise_resolve env this state_resolved v s = (Inr (Prom this), s') \<and>
           calls s' = calls s @ [(i, v)] \<and>
           (\<exists>js. queue s' = queue s @ (d, state_resolved, js_or x v) # js) \<and>
           (\<forall>y. y \<noteq> this \<longrightarrow> heap s' y = heap s y)"
  using assms
  by (simp add: promise_resolve_def assign_def drain_def drain_callback_def handlers_of_def
        fn_returns_plain methods_resolve_def methods_reject_def utility_defer_def Let_def
        split: option.splits)

lemma settle_single_calls:
  assumes "state (heap s this) = state_pending" and "\<not> frozen (heap s this)"
    and "fulfill (heap s this) = [Wrapper this d (Callable (Pure j g)) fa True]"
  shows "calls (snd (promise_resolve env this state_resolved v s)) = calls s @ [(j, v)]"
proof -
  let ?s2 = "s\<lparr>heap := (heap s)(this := heap s this\<lparr>state := state_resolved, outcome := v\<rparr>)\<rparr>"
  obtain r s3 where f: "fn env this d (Callable (Pure j g)) fa True ?s2 = (r, s3)"
    by fastforce
  have c: "calls s3 = calls s @ [(j, v)]"
    using fn_calls [of env this d j g fa ?s2] f by simp
  show ?thesis
    using assms f c
    by (auto simp add: promise_resolve_def assign_def drain_def drain_callback_def handlers_of_def
        methods_resolve_def methods_reject_def utility_defer_def Let_def
        split: sum.splits option.splits)
qed

lemma run_job_Cons:
  "queue s = (this, lbl, a) # js \<Longrightarrow>
   run_job env s =
     (case promise_resolve env this lbl a (s\<lparr> queue := js \<rparr>) of
        (Inl x, s1) \<Rightarrow> (Some x, s1) | (Inr r, s1) \<Rightarrow> (None, s1))"
  by (simp add: run_job_def)

lemma resolve_then_job:
  "queue s = [] \<Longrightarrow>
   run_job env (snd (methods_resolve this a s)) =
     (case promise_resolve env this state_resolved a s of
        (Inl x, s1) \<Rightarrow> (Some x, s1) | (Inr r, s1) \<Rightarrow> (None, s1))"
  by (cases s) (simp add: run_job_def methods_resolve_def utility_defer_def)

lemma reject_then_job:
  "queue s = [] \<Longrightarrow>
   run_job env (snd (methods_reject this a s)) =
     (case promise_resolve env this state_broken a s of
        (Inl x, s1) \<Rightarrow> (Some x, s1) | (Inr r, s1) \<Rightarrow> (None, s1))"
  by (cases s) (simp add: run_job_def methods_reject_def utility_defer_def)

lemma fn_throws:
  assumes "f (outcome (heap s self)) = Throws e" and "e \<noteq> Undefined"
  shows "fn env self d (Callable (Pure i f)) fa True s =
           (Inr (catch_normalize env e),
            s\<lparr> calls := calls s @ [(i, outcome (heap s self))],
               queue := queue s @ [(d, state_broken, catch_normalize env e)] \<rparr>)"
  using assms
  by (cases e) (auto simp add: fn.simps methods_reject_def utility_defer_def catch_normalize_def
      Error_of_def js_or_def split: val.splits)


lemma fn_throws_undefined:
  assumes "f (outcome (heap s self)) = Throws Undefined"
  shows "fn env self d (Callable (Pure i f)) fa True s =
           (Inl (Err (invalidArguments env)),
            s\<lparr> calls := calls s @ [(i, outcome (heap s self))] \<rparr>)"
  using assms by (simp add: fn.simps catch_normalize_def)

lemma fn_benign:
  assumes "f (outcome (heap s self)) \<noteq> Throws Undefined"
    and "\<forall>q. f (outcome (heap s self)) \<noteq> Returns (Prom q)"
  shows "\<exists>r js. fn env self d (Callable (Pure i f)) fa True s =
           (Inr r, s\<lparr> calls := calls s @ [(i, outcome (heap s self))],
                      queue := queue s @ js \<rparr>) \<and> \<not> instanceof_Promise r"
proof (cases "f (outcome (heap s self))")
  case (Returns x)
  with assms have "\<not> instanceof_Promise x" by (cases x) auto
  with Returns show ?thesis using fn_returns_plain by blast
next
  case (Throws e)
  with assms have "e \<noteq> Undefined" by auto
  with Throws show ?thesis using fn_throws catch_normalize_not_Promise by blast
qed

lemma settle_two_calls:
  assumes "state (heap s this) = state_pending" and "\<not> frozen (heap s this)"
    and "fulfill (heap s this) =
           [Wrapper this d1 (Callable (Pure i f)) fa1 True,
            Wrapper this d2 (Callable (Pure j g)) fa2 True]"
    and "f v \<noteq> Throws Undefined" and "\<forall>q. f v \<noteq> Returns (Prom q)"
  shows "calls (snd (promise_resolve env this state_resolved v s)) = calls s @ [(i, v), (j, v)]"
proof -
  let ?s2 = "s\<lparr>heap := (heap s)(this := heap s this\<lparr>state := state_resolved, outcome := v\<rparr>)\<rparr>"
  obtain r1 js where f1: "fn env this d1 (Callable (Pure i f)) fa1 True ?s2 =
      (Inr r1, ?s2\<lparr> calls := calls s @ [(i, v)], queue := queue s @ js \<rparr>)"
    and r1: "\<not> instanceof_Promise r1"
    using fn_benign [of f ?s2 this env d1 i fa1] assms by auto
  let ?s3 = "?s2\<lparr> calls := calls s @ [(i, v)], queue := queue s @ js \<rparr>"
  obtain r s4 where f2: "fn env this d2 (Callable (Pure j g)) fa2 True ?s3 = (r, s4)"
    by fastforce
  have c: "calls s4 = calls s @ [(i, v), (j, v)]"
    using fn_calls [of env this d2 j g fa2 ?s3] f2 by simp
  show ?thesis
    using assms f1 r1 f2 c
    by (auto simp add: promise_resolve_def assign_def drain_def drain_callback_def handlers_of_def
        methods_resolve_def methods_reject_def utility_defer_def Let_def
        split: sum.splits option.splits)
qed

section \<open>What a drain without adoption leaves alone\<close>


lemma call_handler_frame:
  assumes "call_handler h v s = (r, s1)"
  shows "heap s1 = heap s" and "nxt s1 = nxt s"
  using assms
  by (cases h; auto simp: methods_resolve_def methods_reject_def utility_defer_def)+

lemma fn_plain_heap:
  assumes "fn env self d su fa yay s = (Inr r, s1)" and "\<not> instanceof_Promise r"
  shows "heap s1 = heap s \<and> nxt s1 = nxt s"
proof -
  obtain r0 s0 where c: "call_arg (if yay then su else fa) (outcome (heap s self)) s = (r0, s0)"
    by fastforce
  note call_arg_frame [OF c]
  with assms c show ?thesis
    by (auto simp add: fn.simps then_forward_eq assign_def methods_resolve_def
        methods_reject_def utility_defer_def Let_def
        split: hres.splits if_splits)
qed

lemma call_cont_plain_heap:
  assumes "call_cont env c v s = (Inr r, s1)" and "\<not> instanceof_Promise r"
  shows "heap s1 = heap s \<and> nxt s1 = nxt s"
proof (cases c)
  case (Wrapper self d su fa yay)
  with assms show ?thesis using fn_plain_heap by simp
next
  case (Raw h)
  with assms show ?thesis
    by (auto split: prod.splits hres.splits dest: call_handler_frame)
qed

lemma drain_callback_Inl:
  "call_cont env c v s = (Inl e, s1) \<Longrightarrow> drain_callback env this v c idx l s = (Inl e, l, s1)"
  by (simp add: drain_callback_def)

lemma drain_callback_Promise:
  assumes "call_cont env c v s = (Inr x, s1)" and "instanceof_Promise x"
    and "drain_callback env this v c idx l s = (r, l1, s2)"
  shows "r \<noteq> Inr True \<and> (r = Inr False \<longrightarrow> v_pending l1)"
  using assms by (auto simp add: drain_callback_def assign_def Let_def split: if_splits)

lemma drain_callback_Error:
  "call_cont env c v s = (Inr x, s1) \<Longrightarrow> \<not> instanceof_Promise x \<Longrightarrow> instanceof_Error x \<Longrightarrow>
   drain_callback env this v c idx l s =
     (Inr True, l\<lparr>v_result := x, v_purge := v_purge l @ [idx],
                  v_error := True, v_reason := x, v_state := state_broken\<rparr>, s1)"
  by (simp add: drain_callback_def)

lemma drain_callback_value:
  "call_cont env c v s = (Inr x, s1) \<Longrightarrow> \<not> instanceof_Promise x \<Longrightarrow> \<not> instanceof_Error x \<Longrightarrow>
   drain_callback env this v c idx l s =
     (Inr True, l\<lparr>v_result := x, v_purge := v_purge l @ [idx]\<rparr>, s1)"
  by (simp add: drain_callback_def)

lemma drain_no_adoption:
  assumes "array_each (drain_callback env this v) cs idx l s = (None, l', s')"
    and "\<not> v_pending l'"
  shows "heap s' = heap s \<and> nxt s' = nxt s \<and>
         ((v_error l \<longrightarrow> v_state l = state_broken) \<longrightarrow>
          (v_error l' \<longrightarrow> v_state l' = state_broken))"
  using assms
proof (induction cs arbitrary: idx l s)
  case Nil
  then show ?case by simp
next
  case (Cons c cs)
  obtain r s1 where cc: "call_cont env c v s = (r, s1)" by fastforce
  show ?case
  proof (cases r)
    case (Inl e)
    with Cons.prems cc show ?thesis by (simp add: drain_callback_Inl)
  next
    case (Inr x)
    show ?thesis
    proof (cases "instanceof_Promise x")
      case True
      obtain r2 l2 s2 where dc: "drain_callback env this v c idx l s = (r2, l2, s2)"
        by (metis prod_cases3)
      from drain_callback_Promise [OF _ True dc] cc Inr
      have "r2 \<noteq> Inr True \<and> (r2 = Inr False \<longrightarrow> v_pending l2)" by simp
      with Cons.prems dc show ?thesis
        by (cases r2) (auto split: bool.splits)
    next
      case False
      with cc Inr have h: "heap s1 = heap s \<and> nxt s1 = nxt s"
        using call_cont_plain_heap by blast
      show ?thesis
      proof (cases "instanceof_Error x")
        case True
        let ?l1 = "l\<lparr>v_result := x, v_purge := v_purge l @ [idx],
                     v_error := True, v_reason := x, v_state := state_broken\<rparr>"
        from Cons.prems cc Inr False True
        have "array_each (drain_callback env this v) cs (Suc idx) ?l1 s1 = (None, l', s')"
          by (simp add: drain_callback_Error)
        from Cons.IH [OF this Cons.prems(2)] h show ?thesis by simp
      next
        case nE: False
        let ?l1 = "l\<lparr>v_result := x, v_purge := v_purge l @ [idx]\<rparr>"
        from Cons.prems cc Inr False nE
        have "array_each (drain_callback env this v) cs (Suc idx) ?l1 s1 = (None, l', s')"
          by (simp add: drain_callback_value)
        from Cons.IH [OF this Cons.prems(2)] h show ?thesis by simp
      qed
    qed
  qed
qed

section \<open>What a settlement leaves alone\<close>


lemma fn_frame:
  assumes "fn env self d su fa yay s = (r, s1)" and "x \<noteq> self" and "x < nxt s"
  shows "state (heap s1 x) = state (heap s x) \<and> outcome (heap s1 x) = outcome (heap s x) \<and>
         nxt s \<le> nxt s1"
proof -
  obtain r0 s0 where c: "call_arg (if yay then su else fa) (outcome (heap s self)) s = (r0, s0)"
    by fastforce
  note call_arg_frame [OF c]
  with assms c show ?thesis
    by (auto simp add: fn.simps then_forward_eq forwarded_frame assign_def methods_resolve_def
        methods_reject_def utility_defer_def Let_def
        split: hres.splits if_splits)
qed

lemma call_cont_frame:
  assumes "call_cont env c v s = (r, s1)" and "registered_on this c"
    and "x \<noteq> this" and "x < nxt s"
  shows "state (heap s1 x) = state (heap s x) \<and> outcome (heap s1 x) = outcome (heap s x) \<and>
         nxt s \<le> nxt s1"
proof (cases c)
  case (Wrapper self d su fa yay)
  with assms show ?thesis using fn_frame by simp
next
  case (Raw h)
  with assms show ?thesis
    by (auto split: prod.splits hres.splits dest: call_handler_frame)
qed

lemma drain_callback_frame:
  assumes "drain_callback env this v c idx l s = (r, l1, s1)" and "registered_on this c"
    and "x \<noteq> this" and "x < nxt s"
  shows "state (heap s1 x) = state (heap s x) \<and> outcome (heap s1 x) = outcome (heap s x) \<and>
         nxt s \<le> nxt s1"
proof -
  obtain r0 s0 where cc: "call_cont env c v s = (r0, s0)" by fastforce
  from call_cont_frame [OF cc assms(2-4)] assms(1,3) cc show ?thesis
    by (auto simp add: drain_callback_def assign_def Let_def split: sum.splits if_splits)
qed

lemma drain_frame:
  assumes "array_each (drain_callback env this v) cs idx l s = (r, l', s')"
    and "list_all (registered_on this) cs" and "x \<noteq> this" and "x < nxt s"
  shows "state (heap s' x) = state (heap s x) \<and> outcome (heap s' x) = outcome (heap s x) \<and>
         nxt s \<le> nxt s'"
  using assms
proof (induction cs arbitrary: idx l s)
  case Nil
  then show ?case by simp
next
  case (Cons c cs)
  obtain r1 l1 s1 where dc: "drain_callback env this v c idx l s = (r1, l1, s1)"
    by (metis prod_cases3)
  from Cons.prems have rc: "registered_on this c" and rcs: "list_all (registered_on this) cs"
    by simp_all
  from drain_callback_frame [OF dc rc Cons.prems(3,4)]
  have f1: "state (heap s1 x) = state (heap s x)" "outcome (heap s1 x) = outcome (heap s x)"
    "nxt s \<le> nxt s1" by simp_all
  show ?case
  proof (cases r1)
    case (Inl e)
    with Cons.prems(1) dc f1 show ?thesis by simp
  next
    case (Inr b)
    show ?thesis
    proof (cases b)
      case True
      with Cons.prems(1) dc Inr
      have "array_each (drain_callback env this v) cs (Suc idx) l1 s1 = (r, l', s')" by simp
      from Cons.IH [OF this rcs Cons.prems(3)] f1 Cons.prems(4) show ?thesis by simp
    next
      case False
      with Cons.prems(1) dc Inr f1 show ?thesis by simp
    qed
  qed
qed

lemma promise_resolve_frame:
  assumes "promise_resolve env this lbl v s = (r, s')"
    and "list_all (registered_on this) (fulfill (heap s this) @ error (heap s this))"
    and "x \<noteq> this" and "x < nxt s"
  shows "state (heap s' x) = state (heap s x) \<and> outcome (heap s' x) = outcome (heap s x)"
proof (cases "state (heap s this) = state_pending")
  case False
  with assms show ?thesis by (simp add: promise_resolve_def)
next
  case True
  let ?h = "if lbl = state_broken then ''error'' else ''fulfill''"
  show ?thesis
  proof (cases "frozen (heap s this)")
    case fr: True
    show ?thesis
    proof (cases "strict env")
      case True
      with assms fr \<open>state (heap s this) = state_pending\<close> show ?thesis
        by (simp add: promise_resolve_def assign_def)
    next
      case False
      obtain r3 l3 s3 where d: "drain env this ?h lbl v s = (r3, l3, s3)"
        by (metis prod_cases3)
      then have d': "array_each (drain_callback env this v) (handlers_of ?h (heap s this)) 0
          \<lparr> v_result = Undefined, v_purge = [], v_pending = False, v_error = False,
            v_reason = Undefined, v_state = lbl \<rparr> s = (r3, l3, s3)"
        by (simp add: drain_def)
      have "list_all (registered_on this) (handlers_of ?h (heap s this))"
        using assms(2) by (simp add: handlers_of_def)
      from drain_frame [OF d' this assms(3,4)]
      have f: "state (heap s3 x) = state (heap s x)" "outcome (heap s3 x) = outcome (heap s x)"
        by simp_all
      from assms(1,3) fr False True d f show ?thesis
        by (auto simp add: promise_resolve_def assign_def methods_resolve_def
            methods_reject_def utility_defer_def Let_def
            split: option.splits if_splits)
    qed
  next
    case nf: False
    let ?s2 = "s\<lparr> heap := (heap s)(this := (heap s this)\<lparr> state := lbl, outcome := v \<rparr>) \<rparr>"
    obtain r3 l3 s3 where d: "drain env this ?h lbl v ?s2 = (r3, l3, s3)"
      by (metis prod_cases3)
    then have d': "array_each (drain_callback env this v) (handlers_of ?h (heap ?s2 this)) 0
        \<lparr> v_result = Undefined, v_purge = [], v_pending = False, v_error = False,
          v_reason = Undefined, v_state = lbl \<rparr> ?s2 = (r3, l3, s3)"
      by (simp add: drain_def)
    have "list_all (registered_on this) (handlers_of ?h (heap ?s2 this))"
      using assms(2) by (simp add: handlers_of_def)
    from drain_frame [OF d' this assms(3)] assms(3,4)
    have f: "state (heap s3 x) = state (heap s x)" "outcome (heap s3 x) = outcome (heap s x)"
      by simp_all
    from assms(1,3) nf True d f show ?thesis
      by (auto simp add: promise_resolve_def assign_def methods_resolve_def
          methods_reject_def utility_defer_def Let_def
          split: option.splits if_splits)
  qed
qed

section \<open>The jobs a settlement adds\<close>

lemma no_job_added_refl [simp]: "no_job_added x s s"
  by (simp add: no_job_added_def)

lemma no_job_added_same_queue: "queue s' = queue s \<Longrightarrow> no_job_added x s s'"
  by (simp add: no_job_added_def)

lemma no_job_added_append:
  "queue s' = queue s @ js \<Longrightarrow> list_all (\<lambda>j. fst j \<noteq> x) js \<Longrightarrow> no_job_added x s s'"
  by (simp add: no_job_added_def)

lemma no_job_addedD:
  "no_job_added x s s' \<Longrightarrow> \<exists>js. queue s' = queue s @ js \<and> list_all (\<lambda>j. fst j \<noteq> x) js"
  unfolding no_job_added_def
  by (metis append_take_drop_id)

lemma no_job_added_trans:
  assumes "no_job_added x s s1" and "no_job_added x s1 s2"
  shows "no_job_added x s s2"
proof -
  from no_job_addedD [OF assms(1)] obtain js where
    a: "queue s1 = queue s @ js" "list_all (\<lambda>j. fst j \<noteq> x) js" by auto
  from no_job_addedD [OF assms(2)] obtain ks where
    b: "queue s2 = queue s1 @ ks" "list_all (\<lambda>j. fst j \<noteq> x) ks" by auto
  from a b have "queue s2 = queue s @ (js @ ks)" "list_all (\<lambda>j. fst j \<noteq> x) (js @ ks)"
    by simp_all
  then show ?thesis by (rule no_job_added_append)
qed

lemma forwarded_queue:
  assumes "x \<noteq> p" and "x \<noteq> nxt s"
  shows "no_job_added x s (forwarded env q p s)"
  using assms
  by (auto simp add: forwarded_def methods_then.simps vouch_forward factory_def assign_def
      Promise_def no_job_added_def)

lemma call_handler_queue:
  assumes "call_handler h v s = (r, s1)" and "x \<notin> set (handler_targets h)"
  shows "no_job_added x s s1"
  using assms
  by (cases h) (auto simp add: methods_resolve_def methods_reject_def utility_defer_def
      no_job_added_def)

lemma call_arg_queue:
  assumes "call_arg a v s = (r, s1)" and "x \<notin> set (arg_targets a)"
  shows "no_job_added x s s1"
  using assms by (cases a) (auto dest: call_handler_queue)

lemma fn_queue:
  assumes "fn env self d su fa yay s = (r, s1)"
    and "x \<notin> set (cont_targets (Wrapper self d su fa yay))" and "x < nxt s"
  shows "no_job_added x s s1"
proof -
  obtain r0 s0 where c: "call_arg (if yay then su else fa) (outcome (heap s self)) s = (r0, s0)"
    by fastforce
  from assms(2) have "x \<notin> set (arg_targets (if yay then su else fa))" by simp
  from call_arg_queue [OF c this] have q0: "no_job_added x s s0" .
  note fr = call_arg_frame [OF c]
  have "no_job_added x s0 s1"
  proof (cases "\<exists>q. r0 = Returns (Prom q)")
    case True
    then obtain q where r0: "r0 = Returns (Prom q)" by blast
    have fw: "\<And>t q'. nxt t = nxt s \<Longrightarrow> queue t = queue s0 \<Longrightarrow>
        no_job_added x s0 (forwarded env q' self t)"
    proof -
      fix t :: st and q' :: nat
      assume t: "nxt t = nxt s" "queue t = queue s0"
      from forwarded_queue [of x self t env q'] assms(2,3) t
      show "no_job_added x s0 (forwarded env q' self t)"
        by (simp add: no_job_added_def)
    qed
    from assms(1) c r0 fr show ?thesis
      by (auto simp add: fn.simps then_forward_eq assign_def fw no_job_added_same_queue
          split: if_splits)
  next
    case False
    then have "\<not> instanceof_Promise (case r0 of Returns v \<Rightarrow> v | Throws e \<Rightarrow> catch_normalize env e)"
      by (cases r0) (auto simp add: catch_normalize_not_Promise elim: instanceof_Promise.elims)
    with assms c show ?thesis
      by (cases r0) (auto simp add: fn.simps methods_resolve_def methods_reject_def
          utility_defer_def no_job_added_def catch_normalize_not_Promise split: if_splits)
  qed
  with q0 show ?thesis by (rule no_job_added_trans)
qed


lemma call_cont_queue:
  assumes "call_cont env c v s = (r, s1)" and "x \<notin> set (cont_targets c)" and "x < nxt s"
  shows "no_job_added x s s1"
proof (cases c)
  case (Wrapper self d su fa yay)
  with assms show ?thesis using fn_queue by simp
next
  case (Raw h)
  with assms show ?thesis
    by (auto split: prod.splits hres.splits dest: call_handler_queue)
qed

lemma drain_callback_queue:
  assumes "drain_callback env this v c idx l s = (r, l1, s1)"
    and "x \<notin> set (cont_targets c)" and "x < nxt s"
  shows "no_job_added x s s1"
proof -
  obtain r0 s0 where cc: "call_cont env c v s = (r0, s0)" by fastforce
  from call_cont_queue [OF cc assms(2,3)] have "no_job_added x s s0" .
  moreover from assms(1) cc have "queue s1 = queue s0"
    by (auto simp add: drain_callback_def assign_def Let_def split: sum.splits if_splits)
  ultimately show ?thesis by (simp add: no_job_added_def)
qed

lemma drain_queue:
  assumes "array_each (drain_callback env this v) cs idx l s = (r, l', s')"
    and "list_all (\<lambda>c. registered_on this c \<and> x \<notin> set (cont_targets c)) cs"
    and "x \<noteq> this" and "x < nxt s"
  shows "no_job_added x s s'"
  using assms
proof (induction cs arbitrary: idx l s)
  case Nil
  then show ?case by simp
next
  case (Cons c cs)
  obtain r1 l1 s1 where dc: "drain_callback env this v c idx l s = (r1, l1, s1)"
    by (metis prod_cases3)
  from Cons.prems have rc: "registered_on this c" "x \<notin> set (cont_targets c)"
    and rcs: "list_all (\<lambda>c. registered_on this c \<and> x \<notin> set (cont_targets c)) cs"
    by simp_all
  from drain_callback_frame [OF dc rc(1) Cons.prems(3,4)] Cons.prems(4)
  have n1: "x < nxt s1" by simp
  from drain_callback_queue [OF dc rc(2) Cons.prems(4)] have q1: "no_job_added x s s1" .
  show ?case
  proof (cases r1)
    case (Inl e)
    with Cons.prems(1) dc q1 show ?thesis by simp
  next
    case (Inr b)
    show ?thesis
    proof (cases b)
      case True
      with Cons.prems(1) dc Inr
      have "array_each (drain_callback env this v) cs (Suc idx) l1 s1 = (r, l', s')" by simp
      from Cons.IH [OF this rcs Cons.prems(3) n1] q1 show ?thesis
        by (rule no_job_added_trans [rotated])
    next
      case False
      with Cons.prems(1) dc Inr q1 show ?thesis by simp
    qed
  qed
qed

lemma promise_resolve_queue:
  assumes "promise_resolve env this lbl v s = (r, s')"
    and "list_all (\<lambda>c. registered_on this c \<and> x \<notin> set (cont_targets c))
           (fulfill (heap s this) @ error (heap s this))"
    and "parentNode (heap s this) \<noteq> Some x"
    and "x \<noteq> this" and "x < nxt s"
  shows "no_job_added x s s'"
proof (cases "state (heap s this) = state_pending")
  case False
  with assms show ?thesis by (simp add: promise_resolve_def)
next
  case True
  let ?h = "if lbl = state_broken then ''error'' else ''fulfill''"
  show ?thesis
  proof (cases "frozen (heap s this) \<and> strict env")
    case True
    with assms \<open>state (heap s this) = state_pending\<close> show ?thesis
      by (auto simp add: promise_resolve_def assign_def)
  next
    case False
    define s2 where "s2 = (if frozen (heap s this) then s
       else s\<lparr> heap := (heap s)(this := (heap s this)\<lparr> state := lbl, outcome := v \<rparr>) \<rparr>)"
    have s2: "queue s2 = queue s" "nxt s2 = nxt s"
      "fulfill (heap s2 this) = fulfill (heap s this)" "error (heap s2 this) = error (heap s this)"
      "parentNode (heap s2 this) = parentNode (heap s this)"
      by (simp_all add: s2_def)
    obtain r3 l3 s3 where d: "drain env this ?h lbl v s2 = (r3, l3, s3)"
      by (metis prod_cases3)
    then have d': "array_each (drain_callback env this v) (handlers_of ?h (heap s2 this)) 0
        \<lparr> v_result = Undefined, v_purge = [], v_pending = False, v_error = False,
          v_reason = Undefined, v_state = lbl \<rparr> s2 = (r3, l3, s3)"
      by (simp add: drain_def)
    have la: "list_all (\<lambda>c. registered_on this c \<and> x \<notin> set (cont_targets c))
        (handlers_of ?h (heap s2 this))"
      using assms(2) s2 by (simp add: handlers_of_def)
    from drain_queue [OF d' la assms(4)] assms(5) s2
    have q3: "no_job_added x s s3" by (simp add: no_job_added_def)
    have "list_all (registered_on this) (handlers_of ?h (heap s2 this))"
      using la by (simp add: list_all_iff)
    from drain_frame [OF d' this assms(4)] assms(5) s2
    have n3: "x < nxt s3" by simp
    from no_job_addedD [OF q3] obtain js where
      js: "queue s3 = queue s @ js" "list_all (\<lambda>j. fst j \<noteq> x) js" by auto
    have hp: "r3 = None \<Longrightarrow> \<not> v_pending l3 \<Longrightarrow> heap s3 = heap s2"
      using drain_no_adoption [of env this v _ 0 _ s2 l3 s3] d' by auto
    from assms(1,3,4) True False d js hp show ?thesis
      by (auto simp add: promise_resolve_def assign_def methods_resolve_def
          methods_reject_def utility_defer_def Let_def no_job_added_def s2_def
          split: option.splits if_splits)
  qed
qed

section \<open>Settling twice\<close>

text \<open>
  Claim C1. Settling (\<open>promise.resolve\<close> with a state label and a value) a Promise
  whose state is not pending raises the double-settlement error, whose message is
  built from the current outcome, and changes nothing: the state of the program,
  and with it the Promise's state and outcome, is returned as it was.
\<close>

theorem settle_twice_raises:
  assumes "state (heap s this) \<noteq> state_pending"
  shows "promise_resolve env this lbl v s =
           (Inl (Err (promiseResolved env (outcome (heap s this)))), s)"
  using assms by (simp add: promise_resolve_def)

theorem settle_twice_raises_witness:
  "state (heap settled_ex 0) \<noteq> state_pending \<and>
   promise_resolve env_ex 0 state_broken (Num 1) settled_ex =
     (Inl (Err ''The promise has been resolved''), settled_ex)"
  using settle_twice_raises [of settled_ex 0 env_ex state_broken "Num 1"]
  by (simp add: example_simps)

section \<open>resolve and reject only schedule\<close>

text \<open>
  Claim C3. The methods \<open>resolve\<close> and \<open>reject\<close> return the Promise they were
  called on and add exactly one job to the end of the queue; the heap is as before,
  so \<open>resolved()\<close> answers what it answered before the call, and for a pending
  Promise it still answers false when the call returns. For a pending Promise that
  is not frozen and has no continuation for the branch, with no older job waiting,
  \<open>resolved()\<close> is true once that job has run.
\<close>

theorem resolve_reject_only_defer:
  "methods_resolve this a s = (this, s\<lparr> queue := queue s @ [(this, state_resolved, a)] \<rparr>) \<and>
   methods_reject this a s = (this, s\<lparr> queue := queue s @ [(this, state_broken, a)] \<rparr>) \<and>
   heap (snd (methods_resolve this a s)) = heap s \<and>
   heap (snd (methods_reject this a s)) = heap s \<and>
   methods_resolved this (snd (methods_resolve this a s)) = methods_resolved this s \<and>
   methods_resolved this (snd (methods_reject this a s)) = methods_resolved this s \<and>
   (state (heap s this) = state_pending \<longrightarrow>
      \<not> methods_resolved this (snd (methods_resolve this a s)) \<and>
      \<not> methods_resolved this (snd (methods_reject this a s))) \<and>
   (state (heap s this) = state_pending \<and> \<not> frozen (heap s this) \<and> queue s = [] \<and>
    fulfill (heap s this) = [] \<and> error (heap s this) = [] \<longrightarrow>
      methods_resolved this (snd (run_job env (snd (methods_resolve this a s)))) \<and>
      methods_resolved this (snd (run_job env (snd (methods_reject this a s)))))"
  by (auto simp add: engine_simps methods_resolved_def split: option.splits)

theorem resolve_reject_only_defer_witness:
  "(state (heap st_init 0) = state_pending \<and> \<not> frozen (heap st_init 0) \<and>
    queue st_init = [] \<and> fulfill (heap st_init 0) = [] \<and> error (heap st_init 0) = []) \<and>
   methods_resolve 0 (Num 42) st_init =
     (0, st_init\<lparr> queue := [(0, state_resolved, Num 42)] \<rparr>) \<and>
   \<not> methods_resolved 0 (snd (methods_resolve 0 (Num 42) st_init)) \<and>
   \<not> methods_resolved 0 (snd (methods_reject 0 (Num 42) st_init)) \<and>
   methods_resolved 0 (snd (run_job env_ex (snd (methods_resolve 0 (Num 42) st_init)))) \<and>
   methods_resolved 0 (snd (run_job env_ex (snd (methods_reject 0 (Num 42) st_init))))"
  using resolve_reject_only_defer [of 0 "Num 42" st_init env_ex]
  by (simp add: example_simps engine_simps methods_resolved_def)

section \<open>Registration: vouch\<close>

text \<open>
  Claim C4. \<open>vouch\<close> with an empty branch selector raises the invalid-arguments
  error. With a non-empty selector: on a pending Promise the continuation goes to
  the end of the sequence of the selector (\<open>fulfill\<close> for the fulfilled label,
  \<open>error\<close> otherwise) and is not invoked; on a Promise settled to the selector it is
  invoked once, at once, with the stored outcome (for a caller's function the record
  of invocations grows by exactly that one entry); on a Promise settled to another
  state nothing is invoked and nothing is stored.
\<close>

theorem vouch_cases:
  "(lbl = [] \<longrightarrow> vouch env this lbl c s = (Inl (Err (invalidArguments env)), s)) \<and>
   (lbl \<noteq> [] \<and> state (heap s this) = state_pending \<longrightarrow>
      vouch env this lbl c s =
        (Inr this, s\<lparr> heap := (heap s)(this :=
           (if lbl = state_resolved
            then (heap s this)\<lparr> fulfill := fulfill (heap s this) @ [c] \<rparr>
            else (heap s this)\<lparr> error := error (heap s this) @ [c] \<rparr>)) \<rparr>)) \<and>
   (lbl \<noteq> [] \<and> state (heap s this) \<noteq> state_pending \<and> state (heap s this) = lbl \<longrightarrow>
      vouch env this lbl c s =
        (case call_cont env c (outcome (heap s this)) s of
           (Inl x, s1) \<Rightarrow> (Inl x, s1) | (Inr r, s1) \<Rightarrow> (Inr this, s1)) \<and>
      (\<forall>i f. c = Raw (Pure i f) \<longrightarrow>
         snd (vouch env this lbl c s) =
           s\<lparr> calls := calls s @ [(i, outcome (heap s this))] \<rparr>)) \<and>
   (lbl \<noteq> [] \<and> state (heap s this) \<noteq> state_pending \<and> state (heap s this) \<noteq> lbl \<longrightarrow>
      vouch env this lbl c s = (Inr this, s))"
  by (auto simp add: vouch.simps isEmpty_def split: hres.splits)

theorem vouch_cases_witness:
  "vouch env_ex 0 [] (Raw (Pure 7 Returns)) st_init =
     (Inl (Err ''Invalid arguments''), st_init) \<and>
   (state_resolved \<noteq> [] \<and> state (heap st_init 0) = state_pending) \<and>
   vouch env_ex 0 state_resolved (Raw (Pure 7 Returns)) st_init =
     (Inr 0, st_init\<lparr> heap := (heap st_init)
        (0 := Promise\<lparr> fulfill := [Raw (Pure 7 Returns)] \<rparr>) \<rparr>) \<and>
   calls (snd (vouch env_ex 0 state_resolved (Raw (Pure 7 Returns)) st_init)) = [] \<and>
   (state (heap settled_ex 0) \<noteq> state_pending \<and> state (heap settled_ex 0) = state_resolved) \<and>
   vouch env_ex 0 state_resolved (Raw (Pure 7 Returns)) settled_ex =
     (Inr 0, settled_ex\<lparr> calls := [(7, Num 42)] \<rparr>) \<and>
   (state (heap settled_ex 0) \<noteq> state_pending \<and> state (heap settled_ex 0) \<noteq> state_broken) \<and>
   vouch env_ex 0 state_broken (Raw (Pure 7 Returns)) settled_ex = (Inr 0, settled_ex)"
  using vouch_cases [of "[]" env_ex 0 "Raw (Pure 7 Returns)" st_init]
    vouch_cases [of state_resolved env_ex 0 "Raw (Pure 7 Returns)" st_init]
    vouch_cases [of state_resolved env_ex 0 "Raw (Pure 7 Returns)" settled_ex]
    vouch_cases [of state_broken env_ex 0 "Raw (Pure 7 Returns)" settled_ex]
  by (simp add: example_simps engine_simps)

section \<open>Adoption\<close>




section \<open>Chaining\<close>

text \<open>
  What the second continuation of a chain receives, for any value that the first
  one returns: the operand that \<open>result || self.outcome\<close> selects.
\<close>

lemma chain_calls:
  assumes "p < nxt s" and "state (heap s p) = state_pending" and "\<not> frozen (heap s p)"
    and "fulfill (heap s p) = []" and "queue s = []"
    and "f v = Returns x" and "\<not> instanceof_Promise x"
  shows "case methods_then env p (Callable (Pure i f)) fa1 s of (r1, s1) \<Rightarrow>
           r1 = Inr (nxt s) \<and>
          (case methods_then env (nxt s) (Callable (Pure j g)) fa2 s1 of (r2, s2) \<Rightarrow>
             r2 = Inr (Suc (nxt s)) \<and>
             calls (snd (run_jobs env 2 (snd (methods_resolve p v s2)))) =
               calls s @ [(i, v), (j, if truthy x then x else v)])"
proof -
  let ?d1 = "nxt s" and ?d2 = "Suc (nxt s)"
  obtain s1 where t1: "methods_then env p (Callable (Pure i f)) fa1 s = (Inr ?d1, s1)"
    and s1: "nxt s1 = ?d2" "heap s1 ?d1 = Promise\<lparr> parentNode := Some p \<rparr>"
      "state (heap s1 p) = state_pending" "\<not> frozen (heap s1 p)"
      "fulfill (heap s1 p) = [Wrapper p ?d1 (Callable (Pure i f)) fa1 True]"
      "queue s1 = []" "calls s1 = calls s"
    using assms by (simp add: then_on_pending)
  obtain s2 where t2: "methods_then env ?d1 (Callable (Pure j g)) fa2 s1 = (Inr ?d2, s2)"
    and s2: "state (heap s2 ?d1) = state_pending" "\<not> frozen (heap s2 ?d1)"
      "fulfill (heap s2 ?d1) = [Wrapper ?d1 ?d2 (Callable (Pure j g)) fa2 True]"
      "state (heap s2 p) = state_pending" "\<not> frozen (heap s2 p)"
      "fulfill (heap s2 p) = [Wrapper p ?d1 (Callable (Pure i f)) fa1 True]"
      "queue s2 = []" "calls s2 = calls s"
    using assms s1 by (simp add: then_on_pending Promise_def)
  obtain s3 js where j1: "promise_resolve env p state_resolved v s2 = (Inr (Prom p), s3)"
    and s3: "calls s3 = calls s @ [(i, v)]"
      "queue s3 = (?d1, state_resolved, js_or x v) # js"
      "heap s3 ?d1 = heap s2 ?d1"
    using settle_single_plain [of s2 p ?d1 i f fa1 v x env] assms s2 by auto
  have "calls (snd (promise_resolve env ?d1 state_resolved (js_or x v) (s3\<lparr>queue := js\<rparr>))) =
          calls s @ [(i, v), (j, js_or x v)]"
    using settle_single_calls [of "s3\<lparr>queue := js\<rparr>" ?d1 ?d2 j g fa2 env "js_or x v"] s2 s3
    by simp
  then have "calls (snd (run_jobs env 2 (snd (methods_resolve p v s2)))) =
          calls s @ [(i, v), (j, js_or x v)]"
    using j1 s2 s3
    by (auto simp add: numeral_2_eq_2 resolve_then_job run_job_Cons split: prod.splits sum.splits)
  with t1 t2 show ?thesis by (simp add: js_or_def)
qed

text \<open>
  Claim C5, as amended. Let \<open>p\<close> be an allocated pending Promise, not frozen, with
  no success continuation yet, while no job is waiting, and let \<open>f\<close>, invoked with
  \<open>v\<close>, return a truthy value \<open>x\<close> that is not a Promise. In the chain
  \<open>p.then(f).then(g)\<close>, whatever the second arguments of the two calls of \<open>then\<close>,
  two turns after \<open>p.resolve(v)\<close> exactly two invocations have been added: \<open>f\<close> with
  \<open>v\<close>, then \<open>g\<close> with \<open>x\<close> itself, and what \<open>g\<close> received is not a Promise. Nothing
  is stated for a falsy \<open>x\<close>.
\<close>

theorem chain_receives:
  assumes "p < nxt s" and "state (heap s p) = state_pending" and "\<not> frozen (heap s p)"
    and "fulfill (heap s p) = []" and "queue s = []"
    and "f v = Returns x" and "\<not> instanceof_Promise x" and "truthy x"
  shows "case methods_then env p (Callable (Pure i f)) fa1 s of (r1, s1) \<Rightarrow>
           r1 = Inr (nxt s) \<and>
          (case methods_then env (nxt s) (Callable (Pure j g)) fa2 s1 of (r2, s2) \<Rightarrow>
             r2 = Inr (Suc (nxt s)) \<and>
             calls (snd (run_jobs env 2 (snd (methods_resolve p v s2)))) =
               calls s @ [(i, v), (j, x)] \<and>
             \<not> instanceof_Promise
                 (snd (last (calls (snd (run_jobs env 2 (snd (methods_resolve p v s2))))))))"
  using chain_calls [where p = p and s = s and f = f and v = v and x = x and env = env
      and i = i and j = j and g = g and ?fa1.0 = fa1 and ?fa2.0 = fa2] assms
  by (simp split: prod.splits)

theorem chain_receives_witness:
  "(0 < nxt one_ex \<and> state (heap one_ex 0) = state_pending \<and> \<not> frozen (heap one_ex 0) \<and>
    fulfill (heap one_ex 0) = [] \<and> queue one_ex = [] \<and> \<not> instanceof_Promise (Num 7) \<and>
    truthy (Num 7)) \<and>
   (case methods_then env_ex 0 (Callable (Pure 1 (\<lambda>v. Returns (Num 7))))
           (NotCallable Undefined) one_ex of
     (r1, s1) \<Rightarrow> r1 = Inr 1 \<and>
    (case methods_then env_ex 1 (Callable (Pure 2 Returns)) (NotCallable Undefined) s1 of
       (r2, s2) \<Rightarrow> r2 = Inr 2 \<and>
       calls (snd (run_jobs env_ex 2 (snd (methods_resolve 0 (Num 42) s2)))) =
         [(1, Num 42), (2, Num 7)] \<and>
       \<not> instanceof_Promise
           (snd (last (calls (snd (run_jobs env_ex 2 (snd (methods_resolve 0 (Num 42) s2)))))))))"
  using chain_receives [where p = 0 and s = one_ex and f = "\<lambda>v. Returns (Num 7)"
      and v = "Num 42" and x = "Num 7" and env = env_ex and i = 1 and j = 2 and g = Returns
      and ?fa1.0 = "NotCallable Undefined" and ?fa2.0 = "NotCallable Undefined"]
  by (simp add: example_simps engine_simps eval_nat_numeral)

text \<open>
  Claim C5 as it was stated fails for the value \<open>undefined\<close>: \<open>f\<close> returns it on a
  Promise fulfilled with 42, and \<open>g\<close> is invoked with 42, the fallback, never with
  \<open>undefined\<close>.
\<close>

theorem chain_fallback_counterexample:
  "case methods_then env_ex 0 (Callable (Pure 1 (\<lambda>v. Returns Undefined)))
          (NotCallable Undefined) one_ex of
     (d1, s1) \<Rightarrow>
   case methods_then env_ex 1 (Callable (Pure 2 Returns)) (NotCallable Undefined) s1 of
     (d2, s2) \<Rightarrow>
   case run_jobs env_ex 2 (snd (methods_resolve 0 (Num 42) s2)) of (xs, s3) \<Rightarrow>
     d1 = Inr 1 \<and> d2 = Inr 2 \<and> xs = [] \<and>
     calls s3 = [(1, Num 42), (2, Num 42)] \<and> (2, Undefined) \<notin> set (calls s3)"
  by (simp add: example_simps engine_simps eval_nat_numeral)

section \<open>An Error result during the drain\<close>

text \<open>
  A settlement toward fulfilled whose drain returns, without adoption, with the
  error flag set: what it does to the Promise and to a pending parent.
\<close>

lemma error_result_settlement:
  assumes "state (heap s this) = state_pending" and "\<not> frozen (heap s this)"
    and "drain env this ''fulfill'' state_resolved v
           (s\<lparr> heap := (heap s)(this :=
                 (heap s this)\<lparr> state := state_resolved, outcome := v \<rparr>) \<rparr>) = (None, l, s3)"
    and "v_error l" and "\<not> v_pending l"
  shows "\<exists>s'. promise_resolve env this state_resolved v s = (Inr (Prom this), s') \<and>
           state (heap s' this) = state_resolved \<and> outcome (heap s' this) = v \<and>
           (\<forall>pn. parentNode (heap s this) = Some pn \<and> pn \<noteq> this \<and>
                 state (heap s pn) = state_pending \<longrightarrow>
              queue s' = queue s3 @ [(pn, state_broken, js_or (v_result l) v)])"
proof -
  let ?s2 = "s\<lparr> heap := (heap s)(this :=
                 (heap s this)\<lparr> state := state_resolved, outcome := v \<rparr>) \<rparr>"
  from assms(3) have
    d: "array_each (drain_callback env this v) (fulfill (heap s this)) 0
         \<lparr> v_result = Undefined, v_purge = [], v_pending = False, v_error = False,
           v_reason = Undefined, v_state = state_resolved \<rparr> ?s2 = (None, l, s3)"
    by (simp add: drain_def handlers_of_def)
  from drain_no_adoption [OF d assms(5)] assms(4)
  have h: "heap s3 = heap ?s2" and b: "v_state l = state_broken" by auto
  show ?thesis
    using assms h b
    by (auto simp add: promise_resolve_def assign_def methods_resolve_def methods_reject_def
        utility_defer_def Let_def split: option.splits)
qed

text \<open>
  Claim C6, as amended. Let a pending Promise, not frozen, be settled toward
  fulfilled with \<open>v\<close>, and let its drain return, no exception leaving it, after a
  continuation it invoked produced an Error result, and without adoption. Then the
  settlement returns the Promise, whose own final state is fulfilled and whose
  outcome is \<open>v\<close>: the late rejection override changes neither.
\<close>

theorem error_result_keeps_state:
  assumes "state (heap s this) = state_pending" and "\<not> frozen (heap s this)"
    and "drain env this ''fulfill'' state_resolved v
           (s\<lparr> heap := (heap s)(this :=
                 (heap s this)\<lparr> state := state_resolved, outcome := v \<rparr>) \<rparr>) = (None, l, s3)"
    and "v_error l" and "\<not> v_pending l"
  shows "case promise_resolve env this state_resolved v s of (r, s') \<Rightarrow>
           r = Inr (Prom this) \<and>
           state (heap s' this) = state_resolved \<and> outcome (heap s' this) = v"
  using error_result_settlement [OF assms] by auto

text \<open>
  The Promise at 1 is the derived Promise of the one at 0, and its own continuation
  throws the string \<open>boom\<close>.
\<close>

theorem error_result_keeps_state_witness:
  "case methods_then env_ex 0 (NotCallable Undefined) (NotCallable Undefined) one_ex of
     (d1, s1) \<Rightarrow>
   case methods_then env_ex 1 (Callable (Pure 1 (\<lambda>v. Throws (Str ''boom''))))
          (NotCallable Undefined) s1 of
     (d2, s) \<Rightarrow>
   case drain env_ex 1 ''fulfill'' state_resolved (Num 42)
          (s\<lparr> heap := (heap s)(1 :=
               (heap s 1)\<lparr> state := state_resolved, outcome := Num 42 \<rparr>) \<rparr>) of
     (x, l, s3) \<Rightarrow>
   case promise_resolve env_ex 1 state_resolved (Num 42) s of (r, s') \<Rightarrow>
     state (heap s 1) = state_pending \<and> \<not> frozen (heap s 1) \<and>
     x = None \<and> v_error l \<and> \<not> v_pending l \<and>
     r = Inr (Prom 1) \<and> state (heap s' 1) = state_resolved \<and> outcome (heap s' 1) = Num 42"
proof -
  obtain d1 s1 where t1:
    "methods_then env_ex 0 (NotCallable Undefined) (NotCallable Undefined) one_ex = (d1, s1)"
    by fastforce
  obtain d2 s where t2:
    "methods_then env_ex 1 (Callable (Pure 1 (\<lambda>v. Throws (Str ''boom''))))
       (NotCallable Undefined) s1 = (d2, s)"
    by fastforce
  let ?s2 = "s\<lparr> heap := (heap s)(1 :=
               (heap s 1)\<lparr> state := state_resolved, outcome := Num 42 \<rparr>) \<rparr>"
  obtain x l s3 where dr: "drain env_ex 1 ''fulfill'' state_resolved (Num 42) ?s2 = (x, l, s3)"
    by (metis prod_cases3)
  have facts: "state (heap s 1) = state_pending" "\<not> frozen (heap s 1)" "x = None"
    "v_error l" "\<not> v_pending l"
    using t1 t2 dr by (auto simp add: example_simps engine_simps)
  from error_result_keeps_state [of s 1 env_ex "Num 42" l s3] facts dr
  have "case promise_resolve env_ex 1 state_resolved (Num 42) s of (r, s') \<Rightarrow>
           r = Inr (Prom 1) \<and>
           state (heap s' 1) = state_resolved \<and> outcome (heap s' 1) = Num 42"
    by simp
  with t1 t2 dr facts show ?thesis by (simp split: prod.splits)
qed

text \<open>
  Claim C6 as it was stated fails: the continuation of a Promise throws \<open>boom\<close>, the
  Promise is settled toward fulfilled with 42, and it ends fulfilled with 42; only
  the derived Promise has a rejection waiting.
\<close>

theorem error_result_counterexample:
  "case methods_then env_ex 0 (Callable (Pure 1 (\<lambda>v. Throws (Str ''boom''))))
          (NotCallable Undefined) one_ex of
     (d, s1) \<Rightarrow>
   case run_jobs env_ex 1 (snd (methods_resolve 0 (Num 42) s1)) of (xs, s2) \<Rightarrow>
     d = Inr 1 \<and> xs = [] \<and> queue s2 = [(1, state_broken, Err ''boom'')] \<and>
     state (heap s2 0) = state_resolved \<and> outcome (heap s2 0) = Num 42 \<and>
     state (heap s2 0) \<noteq> state_broken \<and> outcome (heap s2 0) \<noteq> Err ''boom''"
  by (simp add: example_simps engine_simps eval_nat_numeral)

section \<open>A thrown object\<close>




section \<open>A rejection continuation that returns nothing\<close>

text \<open>
  Claim C8, as amended. Let \<open>p\<close> be a pending Promise, not frozen, with no rejection
  continuation yet and no job waiting, and let the rejection continuation \<open>f\<close>
  passed to \<open>p.then\<close> return \<open>undefined\<close> when \<open>p\<close> is rejected with \<open>v\<close>. Two turns
  after \<open>p.reject(v)\<close> no error has been raised; \<open>f\<close> has been invoked once with \<open>v\<close>,
  and the derived Promise is fulfilled with \<open>v\<close>, the outcome of \<open>p\<close>.
\<close>

theorem rejection_handler_returning_undefined:
  assumes "p < nxt s" and "state (heap s p) = state_pending" and "\<not> frozen (heap s p)"
    and "error (heap s p) = []" and "queue s = []" and "f v = Returns Undefined"
  shows "case methods_then env p success (Callable (Pure i f)) s of (r, s1) \<Rightarrow>
           r = Inr (nxt s) \<and>
           (case run_jobs env 2 (snd (methods_reject p v s1)) of (xs, s2) \<Rightarrow>
              xs = [] \<and> calls s2 = calls s @ [(i, v)] \<and>
              state (heap s2 (nxt s)) = state_resolved \<and> outcome (heap s2 (nxt s)) = v)"
  using assms
  by (cases success) (auto simp add: engine_simps numeral_2_eq_2 split: option.splits)

theorem rejection_handler_returning_undefined_witness:
  "(0 < nxt one_ex \<and> state (heap one_ex 0) = state_pending \<and> \<not> frozen (heap one_ex 0) \<and>
    error (heap one_ex 0) = [] \<and> queue one_ex = []) \<and>
   (case methods_then env_ex 0 (NotCallable Undefined)
           (Callable (Pure 1 (\<lambda>v. Returns Undefined))) one_ex of
     (r, s1) \<Rightarrow> r = Inr 1 \<and>
       (case run_jobs env_ex 2 (snd (methods_reject 0 (Str ''bad'') s1)) of (xs, s2) \<Rightarrow>
          xs = [] \<and> calls s2 = [(1, Str ''bad'')] \<and>
          state (heap s2 1) = state_resolved \<and> outcome (heap s2 1) = Str ''bad''))"
  using rejection_handler_returning_undefined [where p = 0 and s = one_ex
      and f = "\<lambda>v. Returns Undefined" and v = "Str ''bad''" and env = env_ex and i = 1
      and success = "NotCallable Undefined"]
  by (simp add: example_simps engine_simps eval_nat_numeral)

text \<open>
  Claim C8 as it was stated fails: a Promise is rejected with \<open>bad\<close>, its rejection
  continuation returns \<open>undefined\<close>, no job throws, and the derived Promise ends
  fulfilled with \<open>bad\<close>.
\<close>

theorem rejection_handler_counterexample:
  "case methods_then env_ex 0 (NotCallable Undefined)
          (Callable (Pure 1 (\<lambda>v. Returns Undefined))) one_ex of
     (d, s1) \<Rightarrow>
   case run_jobs env_ex 2 (snd (methods_reject 0 (Str ''bad'') s1)) of (xs, s2) \<Rightarrow>
     d = Inr 1 \<and> xs = [] \<and> calls s2 = [(1, Str ''bad'')] \<and> queue s2 = [] \<and>
     state (heap s2 0) = state_broken \<and>
     state (heap s2 1) = state_resolved \<and> outcome (heap s2 1) = Str ''bad''"
  by (simp add: example_simps engine_simps eval_nat_numeral)

section \<open>Two continuations on one Promise\<close>

text \<open>
  Claim C9, as amended. Let \<open>p\<close> be a pending Promise, not frozen, with no success
  continuation yet and no job waiting, and let two success continuations \<open>f\<close> and
  \<open>g\<close> be registered on it, in this order, by two calls of \<open>then\<close>. If \<open>f\<close>, invoked
  with \<open>v\<close>, neither returns a Promise nor throws \<open>undefined\<close>, then once the job of
  \<open>p.resolve(v)\<close> has run, \<open>f\<close> and then \<open>g\<close> have each been invoked exactly once,
  both with \<open>v\<close>. (The spec's value is the string \<open>x\<close>.)
\<close>

theorem two_continuations_in_order:
  assumes "p < nxt s" and "state (heap s p) = state_pending" and "\<not> frozen (heap s p)"
    and "fulfill (heap s p) = []" and "queue s = []"
    and "f v \<noteq> Throws Undefined" and "\<forall>q. f v \<noteq> Returns (Prom q)"
  shows "case methods_then env p (Callable (Pure i f)) fa1 s of (r1, s1) \<Rightarrow>
           r1 = Inr (nxt s) \<and>
          (case methods_then env p (Callable (Pure j g)) fa2 s1 of (r2, s2) \<Rightarrow>
             r2 = Inr (Suc (nxt s)) \<and> calls s2 = calls s \<and>
             calls (snd (run_job env (snd (methods_resolve p v s2)))) =
               calls s @ [(i, v), (j, v)])"
proof -
  let ?d1 = "nxt s" and ?d2 = "Suc (nxt s)"
  obtain s1 where t1: "methods_then env p (Callable (Pure i f)) fa1 s = (Inr ?d1, s1)"
    and s1: "nxt s1 = ?d2" "state (heap s1 p) = state_pending" "\<not> frozen (heap s1 p)"
      "fulfill (heap s1 p) = [Wrapper p ?d1 (Callable (Pure i f)) fa1 True]"
      "queue s1 = []" "calls s1 = calls s"
    using assms by (simp add: then_on_pending)
  obtain s2 where t2: "methods_then env p (Callable (Pure j g)) fa2 s1 = (Inr ?d2, s2)"
    and s2: "state (heap s2 p) = state_pending" "\<not> frozen (heap s2 p)"
      "fulfill (heap s2 p) = [Wrapper p ?d1 (Callable (Pure i f)) fa1 True,
                               Wrapper p ?d2 (Callable (Pure j g)) fa2 True]"
      "queue s2 = []" "calls s2 = calls s"
    using assms s1 by (simp add: then_on_pending)
  have "calls (snd (promise_resolve env p state_resolved v s2)) = calls s @ [(i, v), (j, v)]"
    using settle_two_calls [of s2 p ?d1 i f fa1 ?d2 j g fa2 v env] assms s2 by simp
  then show ?thesis
    using t1 t2 s2
    by (auto simp add: resolve_then_job split: prod.splits sum.splits)
qed

theorem two_continuations_in_order_witness:
  "(0 < nxt one_ex \<and> state (heap one_ex 0) = state_pending \<and> \<not> frozen (heap one_ex 0) \<and>
    fulfill (heap one_ex 0) = [] \<and> queue one_ex = [] \<and>
    Returns (Str ''x'') \<noteq> Throws Undefined) \<and>
   (case methods_then env_ex 0 (Callable (Pure 1 Returns)) (NotCallable Undefined) one_ex of
     (r1, s1) \<Rightarrow> r1 = Inr 1 \<and>
    (case methods_then env_ex 0 (Callable (Pure 2 Returns)) (NotCallable Undefined) s1 of
       (r2, s2) \<Rightarrow> r2 = Inr 2 \<and>
       calls (snd (run_job env_ex (snd (methods_resolve 0 (Str ''x'') s2)))) =
         [(1, Str ''x''), (2, Str ''x'')]))"
  using two_continuations_in_order [where p = 0 and s = one_ex and f = Returns
      and v = "Str ''x''" and env = env_ex and i = 1 and j = 2 and g = Returns
      and ?fa1.0 = "NotCallable Undefined" and ?fa2.0 = "NotCallable Undefined"]
  by (simp add: example_simps engine_simps eval_nat_numeral)

text \<open>
  Claim C9 as it was stated fails when the first continuation returns a Promise:
  the drain halts there, and once the job has run the second continuation has not
  been invoked.
\<close>

theorem two_continuations_counterexample:
  "case methods_then env_ex 0 (Callable (Pure 1 (\<lambda>v. Returns (Prom 1))))
          (NotCallable Undefined) two_ex of
     (d1, s1) \<Rightarrow>
   case methods_then env_ex 0 (Callable (Pure 2 Returns)) (NotCallable Undefined) s1 of
     (d2, s2) \<Rightarrow>
   case run_jobs env_ex 1 (snd (methods_resolve 0 (Str ''x'') s2)) of (xs, s3) \<Rightarrow>
     d1 = Inr 2 \<and> d2 = Inr 3 \<and> xs = [] \<and> queue s3 = [] \<and>
     calls s3 = [(1, Str ''x'')] \<and> (2, Str ''x'') \<notin> set (calls s3)"
  by (simp add: example_simps engine_simps array_remove_def eval_nat_numeral)

section \<open>then without functions\<close>

text \<open>
  Claim C10. Let \<open>p\<close> be an allocated Promise whose stored closures of \<open>then\<close> are
  its own (\<open>self = p\<close>, as \<open>then\<close> registers them), and let nothing stored on \<open>p\<close>
  reach an address that is not allocated yet. \<open>p.then\<close> with two arguments that are
  not functions stores no continuation in either sequence of \<open>p\<close> and returns a new
  Promise, pending, with a null outcome and \<open>parentNode = p\<close>. When \<open>p\<close> is then
  settled, with any label and value and whatever the settlement returns or throws,
  the derived Promise is still pending with a null outcome, and the settlement has
  scheduled no job for it.
\<close>

theorem then_without_functions:
  assumes "well_formed_at s p"
  shows "methods_then env p (NotCallable a) (NotCallable b) s =
           (Inr (nxt s),
            s\<lparr> heap := (heap s)(nxt s := Promise\<lparr> parentNode := Some p \<rparr>),
               nxt := Suc (nxt s) \<rparr>) \<and>
         (case methods_then env p (NotCallable a) (NotCallable b) s of (d, s1) \<Rightarrow>
            fulfill (heap s1 p) = fulfill (heap s p) \<and> error (heap s1 p) = error (heap s p) \<and>
            state (heap s1 (nxt s)) = state_pending \<and> outcome (heap s1 (nxt s)) = Null \<and>
            parentNode (heap s1 (nxt s)) = Some p \<and>
            (case promise_resolve env p lbl v s1 of (r, s2) \<Rightarrow>
               state (heap s2 (nxt s)) = state_pending \<and> outcome (heap s2 (nxt s)) = Null \<and>
               no_job_added (nxt s) s1 s2))"
proof -
  let ?s1 = "s\<lparr> heap := (heap s)(nxt s := Promise\<lparr> parentNode := Some p \<rparr>),
               nxt := Suc (nxt s) \<rparr>"
  from assms have p: "p < nxt s"
    and w: "list_all (\<lambda>c. registered_on p c \<and> list_all (\<lambda>a. a < nxt s) (cont_targets c))
              (fulfill (heap s p) @ error (heap s p))"
    and pn: "parentNode (heap s p) \<noteq> Some (nxt s)"
    by (auto simp add: well_formed_at_def split: option.splits)
  have t: "methods_then env p (NotCallable a) (NotCallable b) s = (Inr (nxt s), ?s1)"
    by (simp add: methods_then.simps factory_def assign_def Promise_def)
  obtain r s2 where pr: "promise_resolve env p lbl v ?s1 = (r, s2)" by fastforce
  from w have w1: "list_all (\<lambda>c. registered_on p c \<and> nxt s \<notin> set (cont_targets c))
      (fulfill (heap s p) @ error (heap s p))"
    by (auto simp add: list_all_iff)
  then have r1: "list_all (registered_on p) (fulfill (heap ?s1 p) @ error (heap ?s1 p))"
    using p by (auto simp add: list_all_iff)
  from promise_resolve_frame [OF pr r1, of "nxt s"] p
  have f: "state (heap s2 (nxt s)) = state_pending \<and> outcome (heap s2 (nxt s)) = Null"
    by (simp add: Promise_def)
  have "list_all (\<lambda>c. registered_on p c \<and> nxt s \<notin> set (cont_targets c))
      (fulfill (heap ?s1 p) @ error (heap ?s1 p))"
    using w1 p by simp
  from promise_resolve_queue [OF pr this] pn p
  have "no_job_added (nxt s) ?s1 s2" by simp
  with t pr p f show ?thesis by (simp add: Promise_def)
qed

theorem then_without_functions_witness:
  "well_formed_at registered_ex 0 \<and>
   fulfill (heap registered_ex 0) =
     [Wrapper 0 1 (Callable (Pure 1 Returns)) (NotCallable Undefined) True] \<and>
   methods_then env_ex 0 (NotCallable Undefined) (NotCallable Null) registered_ex =
     (Inr 2, registered_ex\<lparr> heap := (heap registered_ex)(2 := Promise\<lparr> parentNode := Some 0 \<rparr>),
                            nxt := 3 \<rparr>) \<and>
   (case methods_then env_ex 0 (NotCallable Undefined) (NotCallable Null) registered_ex of
      (d, s1) \<Rightarrow>
      fulfill (heap s1 0) = fulfill (heap registered_ex 0) \<and>
      (case promise_resolve env_ex 0 state_resolved (Num 42) s1 of (r, s2) \<Rightarrow>
         r = Inr (Prom 0) \<and> state (heap s2 0) = state_resolved \<and>
         state (heap s2 2) = state_pending \<and> outcome (heap s2 2) = Null \<and>
         queue s2 = [(1, state_resolved, Num 42)] \<and> no_job_added 2 s1 s2))"
  using then_without_functions [where p = 0 and s = registered_ex and env = env_ex
      and a = Undefined and b = Null and lbl = state_resolved and v = "Num 42"]
  by (simp add: example_simps engine_simps well_formed_at_def no_job_added_def
      eval_nat_numeral)

end
